theory Spec2Isabelle
  imports Main "HOL-Library.Word"
begin

unbundle bit_operations_syntax

section \<open>Data model of \<^verbatim>\<open>rs_encoder.c\<close>\<close>

text \<open>
  Symbols, the message buffer and the parity buffer are \<^verbatim>\<open>uint8_t\<close>; the
  parameters \<^verbatim>\<open>k\<close>, \<^verbatim>\<open>t\<close>, \<^verbatim>\<open>m\<close>, the loop counters and the
  \<^verbatim>\<open>rhs\<close> array are C \<^verbatim>\<open>int\<close> (32 bit, signed). Arrays are lists whose
  length is the number of elements that were allocated. What C leaves undefined
  (an index outside an array, a shift by a negative or too large amount, signed
  overflow) is an error value of the model, so that no such step is hidden in
  an unspecified HOL value.
\<close>

type_synonym uint8 = "8 word"

datatype array_name = Msg | MsgZ | Rhs | Parity | AdditionsTable | ProductsTable

datatype error = OutOfBounds array_name | ShiftUndefined | SignedOverflow

definition RS_MAX_SYMBOL_SIZE :: int where
  "RS_MAX_SYMBOL_SIZE = 5"

definition RS_MAX_PARITY_SYMBOLS :: int where
  "RS_MAX_PARITY_SYMBOLS = 8"

definition RS_MAX_MESSAGE_LENGTH :: int where
  "RS_MAX_MESSAGE_LENGTH = 16"

definition in_int_range :: "int \<Rightarrow> bool" where
  "in_int_range x \<longleftrightarrow> - (2 ^ 31) \<le> x \<and> x < 2 ^ 31"

definition and_then :: "error + 'a \<Rightarrow> ('a \<Rightarrow> error + 'b) \<Rightarrow> error + 'b" where
  "and_then r f = (case r of Inl e \<Rightarrow> Inl e | Inr x \<Rightarrow> f x)"

definition read_at :: "array_name \<Rightarrow> 'a list \<Rightarrow> int \<Rightarrow> error + 'a" where
  "read_at nm xs i =
     (if 0 \<le> i \<and> i < int (length xs) then Inr (xs ! nat i) else Inl (OutOfBounds nm))"

definition write_at :: "array_name \<Rightarrow> 'a list \<Rightarrow> int \<Rightarrow> 'a \<Rightarrow> error + 'a list" where
  "write_at nm xs i v =
     (if 0 \<le> i \<and> i < int (length xs) then Inr (xs[nat i := v]) else Inl (OutOfBounds nm))"

text \<open>\<^verbatim>\<open>for (int i = lo; i < n; i++) body\<close>, stopping at the first undefined step.\<close>

function for_loop :: "int \<Rightarrow> int \<Rightarrow> (int \<Rightarrow> 's \<Rightarrow> error + 's) \<Rightarrow> 's \<Rightarrow> error + 's" where
  "for_loop i n body s =
     (if i < n then (case body i s of Inl e \<Rightarrow> Inl e | Inr s' \<Rightarrow> for_loop (i + 1) n body s')
      else Inr s)"
  by pat_completeness auto
termination
  by (relation "measure (\<lambda>(i, n, body, s). nat (n - i))") auto

declare for_loop.simps [simp del]

section \<open>The lookup tables\<close>

definition GALOIS_PRODUCTS_4 :: "uint8 list list" where
  "GALOIS_PRODUCTS_4 =
    [[0, 0, 0, 0],
     [13, 12, 8, 7],
     [9, 11, 3, 14],
     [4, 7, 11, 9],
     [1, 5, 6, 15],
     [12, 9, 14, 8],
     [8, 14, 5, 1],
     [5, 2, 13, 6],
     [2, 10, 12, 13],
     [15, 6, 4, 10],
     [11, 1, 15, 3],
     [6, 13, 7, 4],
     [3, 15, 10, 2],
     [14, 3, 2, 5],
     [10, 4, 9, 12],
     [7, 8, 1, 11]]"

definition GALOIS_ADDITIONS_4 :: "uint8 list list" where
  "GALOIS_ADDITIONS_4 =
    [[0, 1, 2, 3, 4, 5, 6, 7, 8, 9, 10, 11, 12, 13, 14, 15],
     [1, 0, 3, 2, 5, 4, 7, 6, 9, 8, 11, 10, 13, 12, 15, 14],
     [2, 3, 0, 1, 6, 7, 4, 5, 10, 11, 8, 9, 14, 15, 12, 13],
     [3, 2, 1, 0, 7, 6, 5, 4, 11, 10, 9, 8, 15, 14, 13, 12],
     [4, 5, 6, 7, 0, 1, 2, 3, 12, 13, 14, 15, 8, 9, 10, 11],
     [5, 4, 7, 6, 1, 0, 3, 2, 13, 12, 15, 14, 9, 8, 11, 10],
     [6, 7, 4, 5, 2, 3, 0, 1, 14, 15, 12, 13, 10, 11, 8, 9],
     [7, 6, 5, 4, 3, 2, 1, 0, 15, 14, 13, 12, 11, 10, 9, 8],
     [8, 9, 10, 11, 12, 13, 14, 15, 0, 1, 2, 3, 4, 5, 6, 7],
     [9, 8, 11, 10, 13, 12, 15, 14, 1, 0, 3, 2, 5, 4, 7, 6],
     [10, 11, 8, 9, 14, 15, 12, 13, 2, 3, 0, 1, 6, 7, 4, 5],
     [11, 10, 9, 8, 15, 14, 13, 12, 3, 2, 1, 0, 7, 6, 5, 4],
     [12, 13, 14, 15, 8, 9, 10, 11, 4, 5, 6, 7, 0, 1, 2, 3],
     [13, 12, 15, 14, 9, 8, 11, 10, 5, 4, 7, 6, 1, 0, 3, 2],
     [14, 15, 12, 13, 10, 11, 8, 9, 6, 7, 4, 5, 2, 3, 0, 1],
     [15, 14, 13, 12, 11, 10, 9, 8, 7, 6, 5, 4, 3, 2, 1, 0]]"

text \<open>
  \<^verbatim>\<open>TABLE[l][r]\<close> on a \<^verbatim>\<open>uint8_t\<close> table with \<^verbatim>\<open>int\<close> indices; the element
  is promoted to \<^verbatim>\<open>int\<close>.
\<close>

definition table_at :: "array_name \<Rightarrow> uint8 list list \<Rightarrow> int \<Rightarrow> int \<Rightarrow> error + int" where
  "table_at nm tb l r =
     and_then (read_at nm tb l) (\<lambda>row. and_then (read_at nm row r) (\<lambda>v. Inr (uint v)))"

section \<open>Field operations\<close>

definition galois_field_add :: "int \<Rightarrow> int \<Rightarrow> int \<Rightarrow> error + int" where
  "galois_field_add m l r =
     (if m = 4 then table_at AdditionsTable GALOIS_ADDITIONS_4 l r
      else if m = 5 then Inr 0
      else Inr (- 1))"

definition galois_field_multiply_generator :: "int \<Rightarrow> int \<Rightarrow> int \<Rightarrow> error + int" where
  "galois_field_multiply_generator m l genIndex =
     (if m = 4 then table_at ProductsTable GALOIS_PRODUCTS_4 l genIndex
      else if m = 5 then Inr 0
      else Inr (- 1))"

section \<open>The encoder\<close>

text \<open>
  One pass of the outer loop of \<^verbatim>\<open>rs_encode_message\<close> (lines 67 to 82), at
  index \<^verbatim>\<open>i\<close> of the padded message, on the caller's parity buffer. The
  results of \<^verbatim>\<open>galois_field_add\<close> are \<^verbatim>\<open>int\<close> and are converted to
  \<^verbatim>\<open>uint8_t\<close> when stored into \<^verbatim>\<open>parity\<close>.
\<close>

definition lfsr_step :: "int \<Rightarrow> uint8 list \<Rightarrow> int \<Rightarrow> uint8 list \<Rightarrow> error + uint8 list" where
  "lfsr_step m msgZ i parity =
     and_then (read_at MsgZ msgZ i) (\<lambda>s.
     and_then (read_at Parity parity 0) (\<lambda>p0.
     and_then (galois_field_add m (uint s) (uint p0)) (\<lambda>msgZJPlusParity1.
     and_then (for_loop 0 m
                 (\<lambda>j rhs. and_then (galois_field_multiply_generator m msgZJPlusParity1 j)
                             (\<lambda>v. write_at Rhs rhs j v))
                 (replicate (nat RS_MAX_PARITY_SYMBOLS) (0 :: int))) (\<lambda>rhs.
     and_then (for_loop 0 (m - 1)
                 (\<lambda>j par. and_then (read_at Parity par (j + 1)) (\<lambda>p.
                           and_then (read_at Rhs rhs j) (\<lambda>r.
                           and_then (galois_field_add m (uint p) r) (\<lambda>v.
                           write_at Parity par j (word_of_int v)))))
                 parity) (\<lambda>par.
     and_then (read_at Rhs rhs (m - 1)) (\<lambda>r.
     and_then (galois_field_add m 0 r) (\<lambda>v.
     write_at Parity par (m - 1) (word_of_int v))))))))"

text \<open>
  \<^verbatim>\<open>rs_encode_message(msg, k, t, m, parity)\<close>: the result is the returned
  \<^verbatim>\<open>int\<close> together with the contents of the caller's parity buffer after the
  call. The message is copied into \<^verbatim>\<open>msgZ\<close> before the first write to
  \<^verbatim>\<open>parity\<close>, so the two buffers may overlap in the caller (as they do in
  \<^verbatim>\<open>main.c\<close>) without changing what is read.
\<close>

definition rs_encode_message ::
    "uint8 list \<Rightarrow> int \<Rightarrow> int \<Rightarrow> int \<Rightarrow> uint8 list \<Rightarrow> error + (int \<times> uint8 list)" where
  "rs_encode_message msg k t m parity =
     (let n = k + t in
      if \<not> in_int_range n then Inl SignedOverflow
      else if m < 0 \<or> 31 \<le> m then Inl ShiftUndefined
      else
        let blockSize = 2 ^ nat m;
            shortened = (blockSize - 1) - n
        in
        if \<not> in_int_range shortened then Inl SignedOverflow
        else
          and_then (for_loop 0 shortened (\<lambda>i z. write_at MsgZ z i 0)
                      (replicate (nat (RS_MAX_PARITY_SYMBOLS + RS_MAX_MESSAGE_LENGTH)) (0 :: uint8)))
            (\<lambda>z.
          and_then (for_loop 0 k
                      (\<lambda>i z. if \<not> in_int_range (i + shortened) then Inl SignedOverflow
                              else and_then (read_at Msg msg i) (\<lambda>v. write_at MsgZ z (i + shortened) v))
                      z)
            (\<lambda>msgZ.
          if \<not> in_int_range (shortened + k) then Inl SignedOverflow
          else
            and_then (for_loop 0 (shortened + k) (lfsr_step m msgZ) parity)
              (\<lambda>parity'. Inr (0, parity')))))"

section \<open>Reference arithmetic over GF(16)\<close>

text \<open>
  The source holds neither the general multiplication of GF(16) nor the
  generator polynomial: it only tabulates the products of every element with
  the four lower coefficients of one generator polynomial. The definitions of
  this section and the next supply them from the specification. Elements are
  polynomials over GF(2) of degree below 4; polynomials over GF(16) are
  coefficient lists, highest order first.
\<close>

text \<open>
  Modelled from the spec: multiplication by the primitive element \<^verbatim>\<open>x\<close> (2),
  reduced modulo the primitive polynomial \<^verbatim>\<open>x^4 + x + 1\<close> (19, the default of
  the MATLAB function the source says it follows). The multiplication table of
  the source is missing; this is the step it is built from.
\<close>

definition xtime :: "uint8 \<Rightarrow> uint8" where
  "xtime a = (if bit a 3 then push_bit 1 a XOR 19 else push_bit 1 a)"

text \<open>
  Modelled from the spec: the general field multiplication, which the source
  does not implement: the sum of the shifted copies of \<open>a\<close> selected by the four
  bits of \<open>c\<close>.
\<close>

definition gf_mult :: "uint8 \<Rightarrow> uint8 \<Rightarrow> uint8" where
  "gf_mult a c =
     (if bit c 0 then a else 0) XOR
     (if bit c 1 then xtime a else 0) XOR
     (if bit c 2 then xtime (xtime a) else 0) XOR
     (if bit c 3 then xtime (xtime (xtime a)) else 0)"

text \<open>
  Modelled from the spec: the antilog table, missing from the source:
  \<open>antilog i\<close> is the \<open>i\<close>-th power of the primitive element.
\<close>

fun antilog :: "nat \<Rightarrow> uint8" where
  "antilog 0 = 1"
| "antilog (Suc i) = xtime (antilog i)"

text \<open>
  Modelled from the spec: the product of a polynomial with the linear factor
  \<open>x + r\<close>, used to expand the list of roots; missing from the source.
\<close>

definition mult_by_root :: "uint8 list \<Rightarrow> uint8 \<Rightarrow> uint8 list" where
  "mult_by_root p r = map2 (XOR) (p @ [0]) (0 # map (gf_mult r) p)"

text \<open>
  Modelled from the spec: the generator polynomial for \<open>t\<close> parity symbols,
  missing from the source: its roots are the consecutive powers
  \<open>antilog 1 .. antilog t\<close> of the primitive element.
\<close>

definition generator_polynomial :: "nat \<Rightarrow> uint8 list" where
  "generator_polynomial t = fold (\<lambda>i p. mult_by_root p (antilog i)) [1..<t + 1] [1]"

text \<open>
  Modelled from the spec: the naive reference division that the division
  invariant is checked with, missing from the source. \<open>poly_mod g cs\<close> is the
  remainder of \<open>cs\<close> on long division by a monic \<open>g\<close>: while the dividend is
  at least as long as \<open>g\<close>, its leading coefficient times \<open>g\<close> is subtracted
  (XOR) and the leading position is dropped.
\<close>

function poly_mod :: "uint8 list \<Rightarrow> uint8 list \<Rightarrow> uint8 list" where
  "poly_mod g cs =
     (if g = [] \<or> length cs < length g then cs
      else poly_mod g
             (map2 (XOR) (tl cs)
                (map (gf_mult (hd cs)) (tl g) @ replicate (length cs - length g) 0)))"
  by pat_completeness auto
termination
  by (relation "measure (\<lambda>(g, cs). length cs)") (auto simp: neq_Nil_conv)

declare poly_mod.simps [simp del]

section \<open>The encoding algorithm of the specification\<close>

text \<open>
  Modelled from the spec: one step of the shift register as the specification
  words it (section 4.3, step 3), for a register of \<open>t\<close> elements and a
  generator polynomial \<open>g\<close> of \<open>t + 1\<close> coefficients: the feedback is the
  symbol plus \<open>R[0]\<close>, the register moves left by one, a zero enters on the
  right, and the feedback times the lower coefficients of \<open>g\<close> is added. It
  is a second definition of the step, to be compared with \<open>lfsr_step\<close>, the
  one of the source.
\<close>

definition spec_lfsr_step :: "uint8 list \<Rightarrow> uint8 \<Rightarrow> uint8 list \<Rightarrow> uint8 list" where
  "spec_lfsr_step g s R =
     (let feedback = s XOR hd R
      in map2 (XOR) (tl R @ [0]) (map (gf_mult feedback) (tl g)))"

text \<open>
  Modelled from the spec: the encoding as the specification words it (section
  4.3, steps 2 to 4): from the all-zero register, the step runs over
  \<open>shortened\<close> zero symbols and then over the message. It is a second
  definition of the encoder, to be compared with \<open>rs_encode_message\<close>, the
  one of the source.
\<close>

definition spec_encode :: "uint8 list \<Rightarrow> nat \<Rightarrow> uint8 list \<Rightarrow> uint8 list" where
  "spec_encode g shortened message =
     fold (spec_lfsr_step g) (replicate shortened 0 @ message) (replicate (length g - 1) 0)"

section \<open>Predicates used in the statements\<close>

text \<open>
  Modelled from the spec: a field element of GF(2^m) is an integer in
  \<open>[0, 2^m)\<close>; the source has no such predicate. \<open>field_elements m xs\<close>
  says that every element of the buffer \<open>xs\<close> is one.
\<close>

definition field_elements :: "int \<Rightarrow> uint8 list \<Rightarrow> bool" where
  "field_elements m xs \<longleftrightarrow> list_all (\<lambda>x. uint x < 2 ^ nat m) xs"

section \<open>Basic facts about the embedding\<close>

lemma and_then_Inr [simp]: "and_then (Inr x) f = f x"
  by (simp add: and_then_def)

lemma and_then_Inl [simp]: "and_then (Inl e) f = Inl e"
  by (simp add: and_then_def)

lemma and_then_eq_Inr:
  "and_then r f = Inr y \<longleftrightarrow> (\<exists>x. r = Inr x \<and> f x = Inr y)"
  by (cases r) simp_all

lemma read_at_eq_Inr:
  "read_at nm xs i = Inr v \<longleftrightarrow> 0 \<le> i \<and> i < int (length xs) \<and> v = xs ! nat i"
  by (auto simp: read_at_def)

lemma write_at_eq_Inr:
  "write_at nm xs i v = Inr ys \<longleftrightarrow> 0 \<le> i \<and> i < int (length xs) \<and> ys = xs[nat i := v]"
  by (auto simp: write_at_def)

text \<open>A property that every pass of a loop keeps holds after the loop, if the loop returns.\<close>

lemma for_loop_preserves:
  assumes "for_loop i n body s = Inr s'" and "P s"
    and "\<And>j u u'. P u \<Longrightarrow> body j u = Inr u' \<Longrightarrow> P u'"
  shows "P s'"
  using assms
proof (induction i n body s rule: for_loop.induct)
  case (1 i n body s)
  show ?case
  proof (cases "i < n")
    case False
    with "1.prems"(1,2) show ?thesis
      by (simp add: for_loop.simps)
  next
    case True
    with "1.prems"(1) obtain u where u: "body i s = Inr u" and rest: "for_loop (i + 1) n body u = Inr s'"
      by (subst (asm) for_loop.simps) (auto split: sum.splits)
    from "1.prems"(2) u have "P u"
      by (rule "1.prems"(3))
    with "1.IH" [OF True u rest] "1.prems"(3) show ?thesis
      by blast
  qed
qed

section \<open>Field addition for \<^verbatim>\<open>m = 4\<close>\<close>

lemma additions_4_table:
  "list_all (\<lambda>a. list_all (\<lambda>b. galois_field_add 4 a b = Inr (a XOR b)) [0..15]) [0..15]"
  by code_simp

lemma galois_field_add_4_xor:
  assumes "0 \<le> a" "a < 16" "0 \<le> b" "b < 16"
  shows "galois_field_add 4 a b = Inr (a XOR b)"
proof -
  from assms have "a \<in> set [0..15]" "b \<in> set [0..15]"
    by simp_all
  with additions_4_table show ?thesis
    unfolding list_all_iff by blast
qed

lemma xor_field_range:
  fixes a b :: int
  assumes "0 \<le> a" "a < 16" "0 \<le> b" "b < 16"
  shows "0 \<le> a XOR b \<and> a XOR b < 16"
  using assms XOR_upper [of a 4 b] by simp

text \<open>
  C8. For \<^verbatim>\<open>m = 4\<close> and field elements \<open>a\<close>, \<open>b\<close> (and \<open>c\<close>) in
  \<open>[0, 16)\<close>, \<^verbatim>\<open>galois_field_add(4, a, b)\<close> is the bitwise XOR of \<open>a\<close> and
  \<open>b\<close>; hence the addition is commutative, associative, has the identity 0
  and every element is its own inverse.
\<close>

theorem galois_field_add_4_is_xor:
  assumes "0 \<le> a" "a < 16" "0 \<le> b" "b < 16" "0 \<le> c" "c < 16"
  shows "galois_field_add 4 a b = Inr (a XOR b)
       \<and> galois_field_add 4 a b = galois_field_add 4 b a
       \<and> and_then (galois_field_add 4 a b) (\<lambda>x. galois_field_add 4 x c)
           = and_then (galois_field_add 4 b c) (\<lambda>y. galois_field_add 4 a y)
       \<and> galois_field_add 4 a 0 = Inr a
       \<and> galois_field_add 4 a a = Inr 0"
proof -
  have ab: "galois_field_add 4 a b = Inr (a XOR b)"
    using assms by (simp add: galois_field_add_4_xor)
  have ba: "galois_field_add 4 b a = Inr (b XOR a)"
    using assms by (simp add: galois_field_add_4_xor)
  have bc: "galois_field_add 4 b c = Inr (b XOR c)"
    using assms by (simp add: galois_field_add_4_xor)
  have abc: "galois_field_add 4 (a XOR b) c = Inr ((a XOR b) XOR c)"
    using assms xor_field_range [of a b] by (simp add: galois_field_add_4_xor)
  have abc': "galois_field_add 4 a (b XOR c) = Inr (a XOR (b XOR c))"
    using assms xor_field_range [of b c] by (simp add: galois_field_add_4_xor)
  have a0: "galois_field_add 4 a 0 = Inr a"
    using assms galois_field_add_4_xor [of a 0] by simp
  have aa: "galois_field_add 4 a a = Inr 0"
    using assms galois_field_add_4_xor [of a a] by simp
  show ?thesis
    by (simp add: ab ba bc abc abc' a0 aa ac_simps)
qed

theorem galois_field_add_4_is_xor_witness:
  "galois_field_add 4 5 9 = Inr (5 XOR 9)
   \<and> galois_field_add 4 5 9 = galois_field_add 4 9 5
   \<and> and_then (galois_field_add 4 5 9) (\<lambda>x. galois_field_add 4 x 3)
       = and_then (galois_field_add 4 9 3) (\<lambda>y. galois_field_add 4 5 y)
   \<and> galois_field_add 4 5 0 = Inr 5
   \<and> galois_field_add 4 5 5 = Inr 0"
  by (rule galois_field_add_4_is_xor) simp_all

section \<open>The product table for \<^verbatim>\<open>m = 4\<close>\<close>

lemma generator_polynomial_4: "generator_polynomial 4 = [1, 13, 12, 8, 7]"
  by code_simp

lemma products_4_zero_row:
  "list_all (\<lambda>j. GALOIS_PRODUCTS_4 ! 0 ! j = 0) [0..<4]"
  by code_simp

lemma products_4_additive_table:
  "list_all (\<lambda>a. list_all (\<lambda>b. list_all (\<lambda>j.
      a XOR b < 16 \<and>
      GALOIS_PRODUCTS_4 ! (a XOR b) ! j = GALOIS_PRODUCTS_4 ! a ! j XOR GALOIS_PRODUCTS_4 ! b ! j)
    [0..<4]) [0..<16]) [0..<16]"
  by code_simp

lemma products_4_mult_table:
  "list_all (\<lambda>a. list_all (\<lambda>j.
      galois_field_multiply_generator 4 (int a) (int j) = Inr (uint (GALOIS_PRODUCTS_4 ! a ! j)) \<and>
      GALOIS_PRODUCTS_4 ! a ! j = gf_mult (of_nat a) ([1, 13, 12, 8, 7] ! (j + 1)))
    [0..<4]) [0..<16]"
  by code_simp

lemma products_4_antilog_table:
  "list_all (\<lambda>i. list_all (\<lambda>j.
      antilog ([13, 6, 3, 10] ! j) = [1, 13, 12, 8, 7] ! (j + 1) \<and>
      GALOIS_PRODUCTS_4 ! unat (antilog i) ! j = antilog ((i + [13, 6, 3, 10] ! j) mod 15))
    [0..<4]) [0..<15]"
  by code_simp

text \<open>
  C10. For \<^verbatim>\<open>m = 4\<close> every column \<open>j\<close> of \<^verbatim>\<open>GALOIS_PRODUCTS_4\<close> is the
  multiplication of GF(16) by one fixed coefficient: row 0 is zero, the column
  is additive over XOR, its entries are the reference products with the
  coefficient \<open>j + 1\<close> of the generator polynomial, and on the powers of the
  primitive element it adds the exponents modulo 15 (the log/antilog
  construction; 13, 6, 3, 10 are the logarithms of the four coefficients).
  \<^verbatim>\<open>galois_field_multiply_generator\<close> returns exactly these entries.
\<close>

theorem galois_products_4_is_multiplication:
  assumes "a < 16" "b < 16" "j < 4" "i < 15"
  shows "GALOIS_PRODUCTS_4 ! 0 ! j = 0
       \<and> a XOR b < 16
       \<and> GALOIS_PRODUCTS_4 ! (a XOR b) ! j = GALOIS_PRODUCTS_4 ! a ! j XOR GALOIS_PRODUCTS_4 ! b ! j
       \<and> galois_field_multiply_generator 4 (int a) (int j) = Inr (uint (GALOIS_PRODUCTS_4 ! a ! j))
       \<and> GALOIS_PRODUCTS_4 ! a ! j = gf_mult (of_nat a) (generator_polynomial 4 ! (j + 1))
       \<and> antilog ([13, 6, 3, 10] ! j) = generator_polynomial 4 ! (j + 1)
       \<and> GALOIS_PRODUCTS_4 ! unat (antilog i) ! j = antilog ((i + [13, 6, 3, 10] ! j) mod 15)"
proof -
  from assms have mem: "a \<in> set [0..<16]" "b \<in> set [0..<16]" "j \<in> set [0..<4]" "i \<in> set [0..<15]"
    by simp_all
  have zero: "GALOIS_PRODUCTS_4 ! 0 ! j = 0"
    using products_4_zero_row mem(3) unfolding list_all_iff by blast
  have additive: "a XOR b < 16 \<and>
      GALOIS_PRODUCTS_4 ! (a XOR b) ! j = GALOIS_PRODUCTS_4 ! a ! j XOR GALOIS_PRODUCTS_4 ! b ! j"
    using products_4_additive_table mem(1,2,3) unfolding list_all_iff by blast
  have mult: "galois_field_multiply_generator 4 (int a) (int j) = Inr (uint (GALOIS_PRODUCTS_4 ! a ! j)) \<and>
      GALOIS_PRODUCTS_4 ! a ! j = gf_mult (of_nat a) ([1, 13, 12, 8, 7] ! (j + 1))"
    using products_4_mult_table mem(1,3) unfolding list_all_iff by blast
  have logs: "antilog ([13, 6, 3, 10] ! j) = [1, 13, 12, 8, 7] ! (j + 1) \<and>
      GALOIS_PRODUCTS_4 ! unat (antilog i) ! j = antilog ((i + [13, 6, 3, 10] ! j) mod 15)"
    using products_4_antilog_table mem(3,4) unfolding list_all_iff by blast
  from zero additive mult logs show ?thesis
    unfolding generator_polynomial_4 by blast
qed

theorem galois_products_4_is_multiplication_witness:
  "GALOIS_PRODUCTS_4 ! 0 ! 2 = 0
   \<and> (5::nat) XOR 9 < 16
   \<and> GALOIS_PRODUCTS_4 ! (5 XOR 9) ! 2 = GALOIS_PRODUCTS_4 ! 5 ! 2 XOR GALOIS_PRODUCTS_4 ! 9 ! 2
   \<and> galois_field_multiply_generator 4 (int 5) (int 2) = Inr (uint (GALOIS_PRODUCTS_4 ! 5 ! 2))
   \<and> GALOIS_PRODUCTS_4 ! 5 ! 2 = gf_mult (of_nat 5) (generator_polynomial 4 ! (2 + 1))
   \<and> antilog ([13, 6, 3, 10] ! 2) = generator_polynomial 4 ! (2 + 1)
   \<and> GALOIS_PRODUCTS_4 ! unat (antilog 7) ! 2 = antilog ((7 + [13, 6, 3, 10] ! 2) mod 15)"
  by (rule galois_products_4_is_multiplication) simp_all

section \<open>Field elements stay field elements\<close>

lemma additions_4_entries: "list_all (list_all (\<lambda>x. uint x < 16)) GALOIS_ADDITIONS_4"
  by code_simp

lemma products_4_entries: "list_all (list_all (\<lambda>x. uint x < 16)) GALOIS_PRODUCTS_4"
  by code_simp

lemma table_at_range:
  assumes "list_all (list_all (\<lambda>x. uint x < B)) tb" and "table_at nm tb l r = Inr v"
  shows "0 \<le> v \<and> v < B"
proof -
  from assms(2) have l: "nat l < length tb" and r: "nat r < length (tb ! nat l)"
    and v: "v = uint (tb ! nat l ! nat r)"
    by (auto simp: table_at_def and_then_eq_Inr read_at_eq_Inr)
  from l have "tb ! nat l \<in> set tb"
    by simp
  with assms(1) have "list_all (\<lambda>x. uint x < B) (tb ! nat l)"
    by (simp add: list_all_iff)
  with r have "uint (tb ! nat l ! nat r) < B"
    by (simp add: list_all_length)
  with v show ?thesis
    by simp
qed

lemma galois_field_add_range:
  assumes "m = 4 \<or> m = 5" and "galois_field_add m l r = Inr v"
  shows "0 \<le> v \<and> v < 2 ^ nat m"
  using assms table_at_range [OF additions_4_entries, of AdditionsTable l r v]
  by (auto simp: galois_field_add_def)

lemma galois_field_multiply_generator_range:
  assumes "m = 4 \<or> m = 5" and "galois_field_multiply_generator m l j = Inr v"
  shows "0 \<le> v \<and> v < 2 ^ nat m"
  using assms table_at_range [OF products_4_entries, of ProductsTable l j v]
  by (auto simp: galois_field_multiply_generator_def)

lemma field_elements_update:
  assumes "field_elements m xs" and "m = 4 \<or> m = 5" and "0 \<le> v" and "v < 2 ^ nat m"
  shows "field_elements m (xs[i := word_of_int v])"
proof -
  from assms(2,4) have "v < 2 ^ 8"
    by auto
  with assms(3) have "uint (word_of_int v :: uint8) = v"
    by (simp add: uint_word_of_int)
  with assms(1,4) show ?thesis
    unfolding field_elements_def list_all_iff
    by (auto dest!: set_update_subset_insert [THEN subsetD])
qed

lemma lfsr_step_field_elements:
  assumes m: "m = 4 \<or> m = 5" and p: "field_elements m parity"
    and step: "lfsr_step m msgZ i parity = Inr parity'"
  shows "field_elements m parity'"
proof -
  from step obtain rhs par r v
    where shift: "for_loop 0 (m - 1)
                 (\<lambda>j par. and_then (read_at Parity par (j + 1)) (\<lambda>p.
                           and_then (read_at Rhs rhs j) (\<lambda>r.
                           and_then (galois_field_add m (uint p) r) (\<lambda>v.
                           write_at Parity par j (word_of_int v)))))
                 parity = Inr par"
      and last: "galois_field_add m 0 r = Inr v" "write_at Parity par (m - 1) (word_of_int v) = Inr parity'"
    unfolding lfsr_step_def and_then_eq_Inr by blast
  have "field_elements m par"
  proof (rule for_loop_preserves [where P = "field_elements m", OF shift p])
    fix j :: int and u u'
    assume u: "field_elements m u"
      and body: "and_then (read_at Parity u (j + 1)) (\<lambda>p.
                           and_then (read_at Rhs rhs j) (\<lambda>r.
                           and_then (galois_field_add m (uint p) r) (\<lambda>v.
                           write_at Parity u j (word_of_int v)))) = Inr u'"
    from body obtain x y w where "galois_field_add m x y = Inr w" and "u' = u[nat j := word_of_int w]"
      unfolding and_then_eq_Inr write_at_eq_Inr by blast
    with u m show "field_elements m u'"
      using galois_field_add_range [of m x y w] by (simp add: field_elements_update)
  qed
  with last m show ?thesis
    using galois_field_add_range [of m 0 r v]
    by (auto simp: write_at_eq_Inr field_elements_update)
qed

lemma rs_encode_message_field_elements:
  assumes m: "m = 4 \<or> m = 5" and p: "field_elements m parity"
    and enc: "rs_encode_message msg k t m parity = Inr (r, parity')"
  shows "field_elements m parity'"
proof -
  from enc obtain n msgZ where "for_loop 0 n (lfsr_step m msgZ) parity = Inr parity'"
    unfolding rs_encode_message_def Let_def
    by (auto simp: and_then_eq_Inr split: if_splits)
  then show ?thesis
    using p
  proof (rule for_loop_preserves)
    fix j :: int and u u'
    assume "field_elements m u" and "lfsr_step m msgZ j u = Inr u'"
    with m show "field_elements m u'"
      by (rule lfsr_step_field_elements)
  qed
qed

text \<open>
  Both field operations return field elements on field elements, for the
  supported widths and every coefficient index \<open>j\<close> in \<open>[0, m)\<close> that the
  encoder passes: \<^verbatim>\<open>galois_field_add(m, a, b)\<close> and
  \<^verbatim>\<open>galois_field_multiply_generator(m, a, j)\<close> return, and return a value
  in \<open>[0, 2^m)\<close>. With the two lemmas above, a parity buffer that holds
  field elements on entry holds field elements after every pass and after the
  call; what the buffer holds on entry is the caller's, since the encoder does
  not initialise it (compare C4 and C9).
\<close>

lemma field_operations_in_range:
  assumes m: "m = 4 \<or> m = 5"
    and a: "0 \<le> a" "a < 2 ^ nat m" and b: "0 \<le> b" "b < 2 ^ nat m"
    and j: "0 \<le> j" "j < m"
  shows "(\<exists>v. galois_field_add m a b = Inr v \<and> 0 \<le> v \<and> v < 2 ^ nat m)
       \<and> (\<exists>v. galois_field_multiply_generator m a j = Inr v \<and> 0 \<le> v \<and> v < 2 ^ nat m)"
proof -
  have add: "\<exists>v. galois_field_add m a b = Inr v"
  proof (cases "m = 4")
    case True
    with a b show ?thesis
      by (simp add: galois_field_add_4_xor)
  next
    case False
    with m show ?thesis
      by (simp add: galois_field_add_def)
  qed
  have mult: "\<exists>v. galois_field_multiply_generator m a j = Inr v"
  proof (cases "m = 4")
    case True
    with a j have "nat a \<in> set [0..<16]" "nat j \<in> set [0..<4]"
      by auto
    with products_4_mult_table
    have "galois_field_multiply_generator 4 (int (nat a)) (int (nat j))
            = Inr (uint (GALOIS_PRODUCTS_4 ! nat a ! nat j))"
      unfolding list_all_iff by blast
    with True a(1) j(1) show ?thesis
      by simp
  next
    case False
    with m show ?thesis
      by (simp add: galois_field_multiply_generator_def)
  qed
  from add m have "\<exists>v. galois_field_add m a b = Inr v \<and> 0 \<le> v \<and> v < 2 ^ nat m"
    using galois_field_add_range by blast
  moreover from mult m
  have "\<exists>v. galois_field_multiply_generator m a j = Inr v \<and> 0 \<le> v \<and> v < 2 ^ nat m"
    using galois_field_multiply_generator_range by blast
  ultimately show ?thesis
    by blast
qed

section \<open>The algorithm of the specification: division, zero message, additivity\<close>

text \<open>
  The reference step is linear over XOR, keeps the zero register on a zero
  symbol, and computes the remainder of the long division: the register and the
  rest of the dividend together are the intermediate dividend of \<open>poly_mod\<close>.
\<close>

lemma xtime_xor: "xtime (a XOR b) = xtime a XOR xtime b"
  by (simp add: xtime_def bit_xor_iff ac_simps)

lemma gf_mult_0 [simp]: "gf_mult 0 c = 0"
  by (simp add: gf_mult_def xtime_def)

lemma gf_mult_xor: "gf_mult (a XOR b) c = gf_mult a c XOR gf_mult b c"
  by (simp add: gf_mult_def xtime_xor ac_simps)

lemma map2_xor_swap:
  fixes X Y B :: "uint8 list"
  assumes "length X = length Y"
  shows "map2 (XOR) (map2 (XOR) X B) Y = map2 (XOR) (map2 (XOR) X Y) B"
  using assms by (intro nth_equalityI) (auto simp: ac_simps)

lemma map2_xor_append_zeros:
  fixes A C :: "uint8 list"
  assumes "length A = length C"
  shows "map2 (XOR) (A @ replicate n 0) (C @ replicate n 0) = map2 (XOR) A C @ replicate n 0"
  using assms by simp

lemma map2_xor_zeros:
  fixes X :: "uint8 list"
  shows "length X = n \<Longrightarrow> map2 (XOR) (replicate n 0) X = X"
  by (intro nth_equalityI) auto

lemma map2_xor_self:
  fixes X :: "uint8 list"
  shows "map2 (XOR) X X = replicate (length X) 0"
  by (intro nth_equalityI) auto

lemma length_spec_lfsr_step:
  "length g = Suc t \<Longrightarrow> length R = t \<Longrightarrow> length (spec_lfsr_step g s R) = t"
  by (simp add: spec_lfsr_step_def Let_def)

lemma length_fold_spec_lfsr_step:
  "length g = Suc t \<Longrightarrow> length R = t \<Longrightarrow> length (fold (spec_lfsr_step g) ms R) = t"
  by (induction ms arbitrary: R) (simp_all add: length_spec_lfsr_step)

lemma poly_mod_short: "length cs < length g \<Longrightarrow> poly_mod g cs = cs"
  by (subst poly_mod.simps) simp

lemma poly_mod_long:
  "g \<noteq> [] \<Longrightarrow> length g \<le> length cs \<Longrightarrow>
   poly_mod g cs = poly_mod g (map2 (XOR) (tl cs)
                     (map (gf_mult (hd cs)) (tl g) @ replicate (length cs - length g) 0))"
  by (subst poly_mod.simps) simp

lemma poly_mod_lfsr:
  assumes g: "length g = Suc t" and t: "0 < t" and "length R = t" and Z: "length Z = t"
  shows "poly_mod g (map2 (XOR) (R @ replicate (length ms) 0) (ms @ Z))
           = map2 (XOR) (fold (spec_lfsr_step g) ms R) Z"
  using assms(3)
proof (induction ms arbitrary: R)
  case Nil
  with g Z show ?case
    by (simp add: poly_mod_short)
next
  case (Cons s ms)
  from Cons.prems t obtain r0 R' where R: "R = r0 # R'"
    by (cases R) auto
  let ?n = "length ms"
  let ?f = "s XOR r0"
  let ?L = "map2 (XOR) (R @ replicate (length (s # ms)) 0) ((s # ms) @ Z)"
  let ?R1 = "spec_lfsr_step g s R"
  have len: "length ?L = length g + ?n"
    using Cons.prems g Z by simp
  have hd: "hd ?L = ?f"
    by (simp add: R ac_simps)
  have tl: "tl ?L = map2 (XOR) ((R' @ [0]) @ replicate ?n 0) (ms @ Z)"
    by (simp add: R replicate_append_same)
  have R1: "?R1 = map2 (XOR) (R' @ [0]) (map (gf_mult ?f) (tl g))"
    by (simp add: spec_lfsr_step_def R)
  have lens: "length (R' @ [0]) = length (map (gf_mult ?f) (tl g))"
    using Cons.prems R g by simp
  have "poly_mod g ?L
          = poly_mod g (map2 (XOR) (tl ?L) (map (gf_mult (hd ?L)) (tl g) @ replicate (length ?L - length g) 0))"
    using len g by (intro poly_mod_long) auto
  also have "map2 (XOR) (tl ?L) (map (gf_mult (hd ?L)) (tl g) @ replicate (length ?L - length g) 0)
          = map2 (XOR) (map2 (XOR) ((R' @ [0]) @ replicate ?n 0) (ms @ Z))
              (map (gf_mult ?f) (tl g) @ replicate ?n 0)"
    unfolding hd tl len by simp
  also have "\<dots> = map2 (XOR) (map2 (XOR) ((R' @ [0]) @ replicate ?n 0)
                                 (map (gf_mult ?f) (tl g) @ replicate ?n 0)) (ms @ Z)"
    using lens by (intro map2_xor_swap) simp
  also have "\<dots> = map2 (XOR) (?R1 @ replicate ?n 0) (ms @ Z)"
    unfolding R1 using lens by (simp only: map2_xor_append_zeros)
  also have "poly_mod g \<dots> = map2 (XOR) (fold (spec_lfsr_step g) ms ?R1) Z"
    using Cons.prems g by (intro Cons.IH) (simp add: length_spec_lfsr_step)
  finally show ?case
    by simp
qed

lemma spec_lfsr_step_zero:
  assumes "length g = Suc t" and "0 < t"
  shows "spec_lfsr_step g 0 (replicate t 0) = replicate t 0"
proof -
  from assms(2) obtain n where n: "t = Suc n"
    by (cases t) auto
  with assms(1) have "length (tl g) = Suc n"
    by simp
  then show ?thesis
    unfolding n spec_lfsr_step_def
    by (intro nth_equalityI) (auto simp: replicate_append_same nth_Cons')
qed

lemma fold_spec_lfsr_step_zeros:
  assumes "length g = Suc t" and "0 < t"
  shows "fold (spec_lfsr_step g) (replicate n 0 @ ms) (replicate t 0)
           = fold (spec_lfsr_step g) ms (replicate t 0)"
  by (induction n) (simp_all add: spec_lfsr_step_zero [OF assms] funpow_swap1)

lemma spec_encode_shortened:
  assumes "length g = Suc t" and "0 < t"
  shows "spec_encode g shortened message = fold (spec_lfsr_step g) message (replicate t 0)"
  using fold_spec_lfsr_step_zeros [OF assms] assms(1) by (simp add: spec_encode_def)

lemma length_spec_encode:
  assumes "length g = Suc t" and "0 < t"
  shows "length (spec_encode g shortened message) = t"
  unfolding spec_encode_shortened [OF assms]
  using assms(1) by (simp add: length_fold_spec_lfsr_step)

lemma spec_encode_division:
  assumes "length g = Suc t" and "0 < t"
  shows "poly_mod g (message @ spec_encode g shortened message) = replicate t 0"
proof -
  let ?P = "spec_encode g shortened message"
  have P: "length ?P = t"
    by (rule length_spec_encode [OF assms])
  have "map2 (XOR) (replicate t 0 @ replicate (length message) 0) (message @ ?P)
          = map2 (XOR) (replicate (length message + t) 0) (message @ ?P)"
    by (simp add: replicate_add [symmetric] add.commute)
  also have "\<dots> = message @ ?P"
    using P by (intro map2_xor_zeros) simp
  finally have "poly_mod g (message @ ?P)
                  = map2 (XOR) (fold (spec_lfsr_step g) message (replicate t 0)) ?P"
    using poly_mod_lfsr [OF assms, of "replicate t 0" ?P message] P by simp
  also have "\<dots> = map2 (XOR) ?P ?P"
    by (simp only: spec_encode_shortened [OF assms])
  also have "\<dots> = replicate t 0"
    using P by (simp only: map2_xor_self)
  finally show ?thesis .
qed

lemma spec_encode_zero_message:
  assumes "length g = Suc t" and "0 < t"
  shows "spec_encode g shortened (replicate k 0) = replicate t 0"
  unfolding spec_encode_shortened [OF assms]
  using fold_spec_lfsr_step_zeros [OF assms, of k "[]"] by simp

lemma spec_lfsr_step_xor:
  assumes "length g = Suc t" and "0 < t" and "length R1 = t" and "length R2 = t"
  shows "spec_lfsr_step g (s1 XOR s2) (map2 (XOR) R1 R2)
           = map2 (XOR) (spec_lfsr_step g s1 R1) (spec_lfsr_step g s2 R2)"
proof -
  from assms(2-4) obtain a A b B where R: "R1 = a # A" "R2 = b # B"
    by (cases R1; cases R2) auto
  with assms have len: "length A = length B" "length (tl g) = Suc (length A)"
    by auto
  let ?f1 = "s1 XOR a" and ?f2 = "s2 XOR b"
  have f: "(s1 XOR s2) XOR (a XOR b) = ?f1 XOR ?f2"
    by (simp add: ac_simps)
  have "map2 (XOR) (map2 (XOR) A B @ [0]) (map (gf_mult (?f1 XOR ?f2)) (tl g))
          = map2 (XOR) (map2 (XOR) (A @ [0]) (map (gf_mult ?f1) (tl g)))
                       (map2 (XOR) (B @ [0]) (map (gf_mult ?f2) (tl g)))"
    using len by (intro nth_equalityI) (auto simp: gf_mult_xor nth_append ac_simps)
  then show ?thesis
    by (simp add: spec_lfsr_step_def R f)
qed

lemma fold_spec_lfsr_step_xor:
  assumes "length g = Suc t" and "0 < t" and "length ms1 = length ms2"
    and "length R1 = t" and "length R2 = t"
  shows "fold (spec_lfsr_step g) (map2 (XOR) ms1 ms2) (map2 (XOR) R1 R2)
           = map2 (XOR) (fold (spec_lfsr_step g) ms1 R1) (fold (spec_lfsr_step g) ms2 R2)"
  using assms(3-5)
proof (induction ms1 ms2 arbitrary: R1 R2 rule: list_induct2)
  case Nil
  show ?case by simp
next
  case (Cons x xs y ys)
  then show ?case
    by (simp add: spec_lfsr_step_xor [OF assms(1,2)] length_spec_lfsr_step [OF assms(1)])
qed

lemma spec_encode_additive:
  assumes "length g = Suc t" and "0 < t" and "length m1 = length m2"
  shows "spec_encode g shortened (map2 (XOR) m1 m2)
           = map2 (XOR) (spec_encode g shortened m1) (spec_encode g shortened m2)"
proof -
  have "fold (spec_lfsr_step g) (map2 (XOR) m1 m2) (map2 (XOR) (replicate t 0) (replicate t 0))
          = map2 (XOR) (fold (spec_lfsr_step g) m1 (replicate t 0))
                       (fold (spec_lfsr_step g) m2 (replicate t 0))"
    by (rule fold_spec_lfsr_step_xor [OF assms]) simp_all
  then show ?thesis
    unfolding spec_encode_shortened [OF assms(1,2)] by (simp add: map2_xor_zeros)
qed

section \<open>The code refines the specification for \<^verbatim>\<open>m = t = 4\<close> on a zeroed buffer\<close>

text \<open>
  For \<^verbatim>\<open>m = 4\<close> one pass of the loop of \<^verbatim>\<open>rs_encode_message\<close> on the first
  four elements of the parity buffer is the reference step with the generator
  polynomial \<open>[1, 13, 12, 8, 7]\<close>; the elements after the fourth are not
  touched. For \<^verbatim>\<open>t = 4\<close> and a buffer that holds zeros in its first four
  elements on entry, the whole call therefore stores the parity of the
  specification. These lemmas delimit the failing inputs of C1, C4, C6 and C7:
  every one of them has a non-zero buffer on entry.
\<close>

lemma for_loop_step:
  "i < n \<Longrightarrow> for_loop i n body s = and_then (body i s) (for_loop (i + 1) n body)"
  by (subst for_loop.simps) (simp add: and_then_def)

lemma for_loop_done:
  "\<not> i < n \<Longrightarrow> for_loop i n body s = Inr s"
  by (subst for_loop.simps) simp

lemma uint_field_xor:
  fixes a b :: uint8
  assumes "uint a < 16" "uint b < 16"
  shows "uint (a XOR b) < 16"
  using assms XOR_upper [of "uint a" 4 "uint b"] by (simp add: uint_xor)

lemma galois_field_add_4_words:
  fixes a b :: uint8
  assumes "uint a < 16" "uint b < 16"
  shows "galois_field_add 4 (uint a) (uint b) = Inr (uint (a XOR b))"
  using assms by (simp add: galois_field_add_4_xor uint_xor)

lemma products_4_entry:
  assumes "a < 16" "j < 4"
  shows "galois_field_multiply_generator 4 (int a) (int j) = Inr (uint (GALOIS_PRODUCTS_4 ! a ! j)) \<and>
      GALOIS_PRODUCTS_4 ! a ! j = gf_mult (of_nat a) ([1, 13, 12, 8, 7] ! (j + 1))"
proof -
  from assms have "a \<in> set [0..<16]" "j \<in> set [0..<4]"
    by simp_all
  with products_4_mult_table show ?thesis
    unfolding list_all_iff by blast
qed

lemma unat_field:
  fixes f :: uint8
  assumes "uint f < 16"
  shows "unat f < 16"
proof -
  from assms have "int (unat f) < int 16"
    by simp
  then show ?thesis
    by (rule of_nat_less_imp_less)
qed

lemma galois_field_multiply_generator_4_words:
  fixes f :: uint8
  assumes "uint f < 16" and "j < 4"
  shows "galois_field_multiply_generator 4 (uint f) (int j)
           = Inr (uint (gf_mult f ([1, 13, 12, 8, 7] ! (j + 1))))
         \<and> uint (gf_mult f ([1, 13, 12, 8, 7] ! (j + 1))) < 16"
proof -
  have a: "unat f < 16"
    using assms(1) by (rule unat_field)
  have eq: "galois_field_multiply_generator 4 (uint f) (int j)
           = Inr (uint (gf_mult f ([1, 13, 12, 8, 7] ! (j + 1))))"
    using products_4_entry [OF a assms(2)] by simp
  from galois_field_multiply_generator_range [of 4 "uint f" "int j", OF _ eq]
  show ?thesis
    using eq by simp
qed

lemma lfsr_step_4:
  assumes i: "0 \<le> i" "i < int (length msgZ)" and s: "uint (msgZ ! nat i) < 16"
    and p: "uint p0 < 16" "uint p1 < 16" "uint p2 < 16" "uint p3 < 16"
  shows "lfsr_step 4 msgZ i (p0 # p1 # p2 # p3 # rest)
           = Inr (spec_lfsr_step [1, 13, 12, 8, 7] (msgZ ! nat i) [p0, p1, p2, p3] @ rest)"
proof -
  let ?s = "msgZ ! nat i"
  let ?f = "?s XOR p0"
  have f: "uint ?f < 16"
    using s p(1) by (rule uint_field_xor)
  have mult: "galois_field_multiply_generator 4 (uint ?f) 0 = Inr (uint (gf_mult ?f 13))"
    "galois_field_multiply_generator 4 (uint ?f) 1 = Inr (uint (gf_mult ?f 12))"
    "galois_field_multiply_generator 4 (uint ?f) 2 = Inr (uint (gf_mult ?f 8))"
    "galois_field_multiply_generator 4 (uint ?f) 3 = Inr (uint (gf_mult ?f 7))"
    using galois_field_multiply_generator_4_words [OF f, of 0]
      galois_field_multiply_generator_4_words [OF f, of 1]
      galois_field_multiply_generator_4_words [OF f, of 2]
      galois_field_multiply_generator_4_words [OF f, of 3]
    by simp_all
  have range: "uint (gf_mult ?f 13) < 16" "uint (gf_mult ?f 12) < 16"
    "uint (gf_mult ?f 8) < 16" "uint (gf_mult ?f 7) < 16"
    using galois_field_multiply_generator_4_words [OF f, of 0]
      galois_field_multiply_generator_4_words [OF f, of 1]
      galois_field_multiply_generator_4_words [OF f, of 2]
      galois_field_multiply_generator_4_words [OF f, of 3]
    by simp_all
  have rhs: "for_loop 0 4
                 (\<lambda>j rhs. and_then (galois_field_multiply_generator 4 (uint ?f) j)
                             (\<lambda>v. write_at Rhs rhs j v))
                 (replicate (nat RS_MAX_PARITY_SYMBOLS) (0 :: int))
          = Inr [uint (gf_mult ?f 13), uint (gf_mult ?f 12), uint (gf_mult ?f 8), uint (gf_mult ?f 7), 0, 0, 0, 0]"
    by (simp add: for_loop_step for_loop_done mult write_at_def RS_MAX_PARITY_SYMBOLS_def
        eval_nat_numeral)
  have add: "galois_field_add 4 (uint p1) (uint (gf_mult ?f 13)) = Inr (uint (p1 XOR gf_mult ?f 13))"
    "galois_field_add 4 (uint p2) (uint (gf_mult ?f 12)) = Inr (uint (p2 XOR gf_mult ?f 12))"
    "galois_field_add 4 (uint p3) (uint (gf_mult ?f 8)) = Inr (uint (p3 XOR gf_mult ?f 8))"
    "galois_field_add 4 0 (uint (gf_mult ?f 7)) = Inr (uint (gf_mult ?f 7))"
    using p range galois_field_add_4_words [of 0 "gf_mult ?f 7"]
    by (simp_all add: galois_field_add_4_words)
  have shift: "for_loop 0 3
                 (\<lambda>j par. and_then (read_at Parity par (j + 1)) (\<lambda>p.
                           and_then (read_at Rhs [uint (gf_mult ?f 13), uint (gf_mult ?f 12), uint (gf_mult ?f 8), uint (gf_mult ?f 7), 0, 0, 0, 0] j) (\<lambda>r.
                           and_then (galois_field_add 4 (uint p) r) (\<lambda>v.
                           write_at Parity par j (word_of_int v)))))
                 (p0 # p1 # p2 # p3 # rest)
          = Inr ((p1 XOR gf_mult ?f 13) # (p2 XOR gf_mult ?f 12) # (p3 XOR gf_mult ?f 8) # p3 # rest)"
    by (simp add: for_loop_step for_loop_done add read_at_def write_at_def eval_nat_numeral)
  have reads: "read_at MsgZ msgZ i = Inr ?s" "read_at Parity (p0 # p1 # p2 # p3 # rest) 0 = Inr p0"
    "read_at Rhs [uint (gf_mult ?f 13), uint (gf_mult ?f 12), uint (gf_mult ?f 8), uint (gf_mult ?f 7), 0, 0, 0, 0] 3
       = Inr (uint (gf_mult ?f 7))"
    using i by (simp_all add: read_at_def eval_nat_numeral)
  have last: "write_at Parity ((p1 XOR gf_mult ?f 13) # (p2 XOR gf_mult ?f 12) # (p3 XOR gf_mult ?f 8) # p3 # rest) 3 v
       = Inr ((p1 XOR gf_mult ?f 13) # (p2 XOR gf_mult ?f 12) # (p3 XOR gf_mult ?f 8) # v # rest)" for v
    by (simp add: write_at_def eval_nat_numeral)
  have "lfsr_step 4 msgZ i (p0 # p1 # p2 # p3 # rest)
          = Inr ((p1 XOR gf_mult ?f 13) # (p2 XOR gf_mult ?f 12) # (p3 XOR gf_mult ?f 8) # gf_mult ?f 7 # rest)"
    unfolding lfsr_step_def
    using s p(1)
    by (simp add: reads galois_field_add_4_words rhs shift add last)
  then show ?thesis
    by (simp add: spec_lfsr_step_def Let_def)
qed

lemma field_elements_4_iff: "field_elements 4 xs \<longleftrightarrow> (\<forall>x\<in>set xs. uint x < 16)"
  by (simp add: field_elements_def list_all_iff)

lemma for_loop_lfsr_step_4:
  assumes "0 \<le> i" and "n \<le> int (length msgZ)" and "field_elements 4 msgZ"
    and "length R = 4" and "field_elements 4 R"
  shows "for_loop i n (lfsr_step 4 msgZ) (R @ rest)
           = Inr (fold (spec_lfsr_step [1, 13, 12, 8, 7]) (take (nat (n - i)) (drop (nat i) msgZ)) R @ rest)"
  using assms(1,4,5)
proof (induction "nat (n - i)" arbitrary: i R)
  case 0
  then show ?case
    by (simp add: for_loop_done)
next
  case (Suc d)
  from Suc.hyps(2) have less: "i < n"
    by linarith
  with Suc.prems(1) assms(2) have i: "0 \<le> i" "i < int (length msgZ)" "nat i < length msgZ"
    by linarith+
  with assms(3) have s: "uint (msgZ ! nat i) < 16"
    by (simp add: field_elements_4_iff)
  from Suc.prems(2) obtain p0 p1 p2 p3 where R: "R = [p0, p1, p2, p3]"
    by (auto simp: length_Suc_conv eval_nat_numeral)
  with Suc.prems(3) have p: "uint p0 < 16" "uint p1 < 16" "uint p2 < 16" "uint p3 < 16"
    by (simp_all add: field_elements_4_iff)
  let ?R' = "spec_lfsr_step [1, 13, 12, 8, 7] (msgZ ! nat i) R"
  have step: "lfsr_step 4 msgZ i (R @ rest') = Inr (?R' @ rest')" for rest'
    using lfsr_step_4 [OF i(1,2) s p] by (simp add: R)
  have len: "length ?R' = 4"
    using Suc.prems(2) by (simp add: length_spec_lfsr_step)
  have "field_elements 4 ?R'"
    using lfsr_step_field_elements [of 4 R msgZ i ?R'] step [of "[]"] Suc.prems(3) by simp
  with Suc.hyps(1) [of "i + 1" ?R'] Suc.hyps(2) i(1) len
  have "for_loop (i + 1) n (lfsr_step 4 msgZ) (?R' @ rest)
          = Inr (fold (spec_lfsr_step [1, 13, 12, 8, 7]) (take (nat (n - (i + 1))) (drop (nat (i + 1)) msgZ)) ?R' @ rest)"
    by simp
  moreover have "take (nat (n - i)) (drop (nat i) msgZ)
          = msgZ ! nat i # take (nat (n - (i + 1))) (drop (nat (i + 1)) msgZ)"
  proof -
    have "nat (n - i) = Suc (nat (n - (i + 1)))" "nat (i + 1) = Suc (nat i)"
      using less i(1) by linarith+
    then show ?thesis
      using i(3) by (simp add: Cons_nth_drop_Suc [symmetric])
  qed
  ultimately show ?case
    using less by (simp add: for_loop_step step)
qed

lemma pad_loop:
  assumes "i \<le> sh" and "sh \<le> N"
  shows "for_loop (int i) (int sh) (\<lambda>i z. write_at MsgZ z i 0) (replicate N 0) = Inr (replicate N (0 :: uint8))"
  using assms(1)
proof (induction "sh - i" arbitrary: i)
  case 0
  then show ?case
    by (simp add: for_loop_done)
next
  case (Suc d)
  then have "i < sh"
    by linarith
  moreover from this assms(2) have "write_at MsgZ (replicate N 0) (int i) (0 :: uint8) = Inr (replicate N 0)"
    by (simp add: write_at_def list_update_same_conv)
  moreover have "for_loop (int (Suc i)) (int sh) (\<lambda>i z. write_at MsgZ z i 0) (replicate N 0) = Inr (replicate N (0 :: uint8))"
    using Suc.hyps(1) [of "Suc i"] Suc.hyps(2) by simp
  ultimately show ?case
    by (simp add: for_loop_step add.commute)
qed

lemma copy_loop:
  assumes "i \<le> k" and "k \<le> length msg" and "sh + k \<le> N" and "N \<le> 24"
  shows "for_loop (int i) (int k)
           (\<lambda>i z. if \<not> in_int_range (i + int sh) then Inl SignedOverflow
                   else and_then (read_at Msg msg i) (\<lambda>v. write_at MsgZ z (i + int sh) v))
           (replicate sh 0 @ take i msg @ replicate (N - sh - i) 0)
         = Inr (replicate sh 0 @ take k msg @ replicate (N - sh - k) 0)"
  using assms(1)
proof (induction "k - i" arbitrary: i)
  case 0
  then show ?case
    by (simp add: for_loop_done)
next
  case (Suc d)
  let ?body = "\<lambda>i z. if \<not> in_int_range (i + int sh) then Inl SignedOverflow
                   else and_then (read_at Msg msg i) (\<lambda>v. write_at MsgZ z (i + int sh) v)"
  let ?z = "replicate sh 0 @ take i msg @ replicate (N - sh - i) 0"
  let ?z' = "replicate sh 0 @ take (Suc i) msg @ replicate (N - sh - Suc i) 0"
  from Suc.hyps(2) have less: "i < k"
    by linarith
  with assms have i: "i < length msg" "sh + i < N" "N - sh - i = Suc (N - sh - Suc i)"
    by linarith+
  have rng: "in_int_range (int i + int sh)"
    using i(2) assms(4) by (simp add: in_int_range_def)
  have rd: "read_at Msg msg (int i) = Inr (msg ! i)"
    using i(1) by (simp add: read_at_def)
  have "?z[sh + i := msg ! i] = ?z'"
    using i(1) unfolding i(3)
    by (simp add: list_update_append take_Suc_conv_app_nth)
  then have wr: "write_at MsgZ ?z (int i + int sh) (msg ! i) = Inr ?z'"
    using i by (simp add: write_at_def nat_add_distrib add.commute)
  have body: "?body (int i) ?z = Inr ?z'"
    by (simp only: rng rd wr and_then_Inr not_True_eq_False if_False)
  have "for_loop (int (Suc i)) (int k) ?body ?z' = Inr (replicate sh 0 @ take k msg @ replicate (N - sh - k) 0)"
    using Suc.hyps(2) less by (intro Suc.hyps(1)) simp_all
  then have rest: "for_loop (int i + 1) (int k) ?body ?z' = Inr (replicate sh 0 @ take k msg @ replicate (N - sh - k) 0)"
    by (simp add: add.commute)
  have "for_loop (int i) (int k) ?body ?z = and_then (?body (int i) ?z) (for_loop (int i + 1) (int k) ?body)"
    using less by (intro for_loop_step) simp
  then show ?case
    by (simp only: body and_then_Inr rest)
qed

lemma rs_encode_message_4_any_t:
  assumes K: "K + T \<le> 15" "K \<le> length msg" and msg: "field_elements 4 (take K msg)"
  shows "rs_encode_message msg (int K) (int T) 4 (0 # 0 # 0 # 0 # rest)
           = Inr (0, spec_encode [1, 13, 12, 8, 7] (15 - K - T) (take K msg) @ rest)"
proof -
  let ?sh = "15 - K - T"
  let ?msgZ = "replicate ?sh 0 @ take K msg @ replicate (24 - ?sh - K) (0 :: uint8)"
  let ?pad = "\<lambda>i z. write_at MsgZ z i (0 :: uint8)"
  let ?copy = "\<lambda>i z. if \<not> in_int_range (i + int ?sh) then Inl SignedOverflow
                   else and_then (read_at Msg msg i) (\<lambda>v. write_at MsgZ z (i + int ?sh) v)"
  have pad: "for_loop 0 (int ?sh) ?pad (replicate 24 0) = Inr (replicate 24 0)"
    using pad_loop [of 0 ?sh 24] by simp
  have "replicate ?sh (0 :: uint8) @ take 0 msg @ replicate (24 - ?sh - 0) 0 = replicate 24 0"
    by (simp add: replicate_add [symmetric])
  with copy_loop [of 0 K msg ?sh 24] K
  have copy: "for_loop 0 (int K) ?copy (replicate 24 0) = Inr ?msgZ"
    by simp
  have len: "length ?msgZ = 24"
    using K by simp
  have fe: "field_elements 4 ?msgZ"
    using msg by (auto simp: field_elements_4_iff)
  have "take (?sh + K) ?msgZ = replicate ?sh 0 @ take K msg"
    using K(2) by simp
  moreover have "nat (int (?sh + K) - 0) = ?sh + K"
    by simp
  ultimately have "take (nat (int (?sh + K) - 0)) (drop (nat 0) ?msgZ) = replicate ?sh 0 @ take K msg"
    by (simp only: nat_0 drop_0)
  with for_loop_lfsr_step_4 [of 0 "int (?sh + K)" ?msgZ "[0, 0, 0, 0]" rest] len fe K(1)
  have "for_loop 0 (int (?sh + K)) (lfsr_step 4 ?msgZ) (0 # 0 # 0 # 0 # rest)
          = Inr (fold (spec_lfsr_step [1, 13, 12, 8, 7]) (replicate ?sh 0 @ take K msg) [0, 0, 0, 0] @ rest)"
    by (simp add: field_elements_4_iff)
  then have run: "for_loop 0 (int ?sh + int K) (lfsr_step 4 ?msgZ) (0 # 0 # 0 # 0 # rest)
          = Inr (fold (spec_lfsr_step [1, 13, 12, 8, 7]) (replicate ?sh 0 @ take K msg) [0, 0, 0, 0] @ rest)"
    by (simp only: of_nat_add)
  have enc: "spec_encode [1, 13, 12, 8, 7] ?sh (take K msg)
          = fold (spec_lfsr_step [1, 13, 12, 8, 7]) (replicate ?sh 0 @ take K msg) [0, 0, 0, 0]"
    by (simp add: spec_encode_def eval_nat_numeral del: fold_append fold_replicate)
  have sh: "(2 :: int) ^ nat 4 - 1 - (int K + int T) = int ?sh"
    using K(1) by simp
  have ranges: "in_int_range (int K + int T)" "in_int_range (int ?sh)" "in_int_range (int ?sh + int K)"
    using K(1) by (simp_all add: in_int_range_def)
  have width: "(4 :: int) < 0 \<or> 31 \<le> (4 :: int) \<longleftrightarrow> False"
    by simp
  have buf: "replicate (nat (RS_MAX_PARITY_SYMBOLS + RS_MAX_MESSAGE_LENGTH)) (0 :: uint8) = replicate 24 0"
    by (simp add: RS_MAX_PARITY_SYMBOLS_def RS_MAX_MESSAGE_LENGTH_def)
  show ?thesis
    unfolding rs_encode_message_def Let_def sh buf enc
    by (simp only: ranges pad copy run width and_then_Inr if_False simp_thms)
qed

lemma rs_encode_message_4_4_nat:
  assumes K: "K \<le> 11" "K \<le> length msg" and msg: "field_elements 4 (take K msg)"
  shows "rs_encode_message msg (int K) 4 4 (0 # 0 # 0 # 0 # rest)
           = Inr (0, spec_encode [1, 13, 12, 8, 7] (11 - K) (take K msg) @ rest)"
  using rs_encode_message_4_any_t [of K 4 msg rest] assms by simp

lemma rs_encode_message_zeroed_buffer:
  assumes "K \<le> 11" and "K \<le> length msg" and "field_elements 4 (take K msg)"
  shows "\<exists>P. rs_encode_message msg (int K) 4 4 (0 # 0 # 0 # 0 # rest) = Inr (0, P @ rest)
           \<and> length P = 4
           \<and> P = spec_encode (generator_polynomial 4) (11 - K) (take K msg)
           \<and> poly_mod (generator_polynomial 4) (take K msg @ P) = [0, 0, 0, 0]"
proof -
  let ?g = "[1, 13, 12, 8, 7] :: uint8 list"
  let ?P = "spec_encode ?g (11 - K) (take K msg)"
  have g: "length ?g = Suc 4" "0 < (4 :: nat)"
    by simp_all
  have "poly_mod ?g (take K msg @ ?P) = replicate 4 0"
    by (rule spec_encode_division [OF g])
  moreover have "length ?P = 4"
    by (rule length_spec_encode [OF g])
  moreover have "rs_encode_message msg (int K) 4 4 (0 # 0 # 0 # 0 # rest) = Inr (0, ?P @ rest)"
    using assms by (rule rs_encode_message_4_4_nat)
  ultimately show ?thesis
    unfolding generator_polynomial_4 by (simp add: eval_nat_numeral)
qed

lemma rs_encode_message_zeroed_buffer_zero_message:
  assumes "K \<le> 11"
  shows "rs_encode_message (replicate K 0) (int K) 4 4 (0 # 0 # 0 # 0 # rest)
           = Inr (0, 0 # 0 # 0 # 0 # rest)"
proof -
  let ?g = "[1, 13, 12, 8, 7] :: uint8 list"
  have g: "length ?g = Suc 4" "0 < (4 :: nat)"
    by simp_all
  have "field_elements 4 (take K (replicate K 0))"
    by (simp add: field_elements_4_iff)
  with assms have "rs_encode_message (replicate K 0) (int K) 4 4 (0 # 0 # 0 # 0 # rest)
          = Inr (0, spec_encode ?g (11 - K) (take K (replicate K 0)) @ rest)"
    by (intro rs_encode_message_4_4_nat) simp_all
  moreover have "spec_encode ?g (11 - K) (replicate K 0) = replicate 4 0"
    by (rule spec_encode_zero_message [OF g])
  ultimately show ?thesis
    by (simp add: eval_nat_numeral)
qed

lemma rs_encode_message_zeroed_buffer_additive:
  assumes "K \<le> 11" and "length m1 = K" and "length m2 = K"
    and "field_elements 4 m1" and "field_elements 4 m2"
  shows "\<exists>P1 P2. rs_encode_message m1 (int K) 4 4 (0 # 0 # 0 # 0 # rest) = Inr (0, P1 @ rest)
           \<and> rs_encode_message m2 (int K) 4 4 (0 # 0 # 0 # 0 # rest) = Inr (0, P2 @ rest)
           \<and> rs_encode_message (map2 (XOR) m1 m2) (int K) 4 4 (0 # 0 # 0 # 0 # rest)
               = Inr (0, map2 (XOR) P1 P2 @ rest)"
proof -
  let ?g = "[1, 13, 12, 8, 7] :: uint8 list"
  let ?m = "map2 (XOR) m1 m2"
  have g: "length ?g = Suc 4" "0 < (4 :: nat)"
    by simp_all
  have "field_elements 4 ?m"
    using assms(4,5) unfolding field_elements_4_iff
    by (auto simp: set_zip uint_field_xor)
  with assms have "rs_encode_message ?m (int K) 4 4 (0 # 0 # 0 # 0 # rest)
          = Inr (0, spec_encode ?g (11 - K) (take K ?m) @ rest)"
    by (intro rs_encode_message_4_4_nat) simp_all
  moreover have "rs_encode_message m1 (int K) 4 4 (0 # 0 # 0 # 0 # rest)
          = Inr (0, spec_encode ?g (11 - K) (take K m1) @ rest)"
    using assms by (intro rs_encode_message_4_4_nat) simp_all
  moreover have "rs_encode_message m2 (int K) 4 4 (0 # 0 # 0 # 0 # rest)
          = Inr (0, spec_encode ?g (11 - K) (take K m2) @ rest)"
    using assms by (intro rs_encode_message_4_4_nat) simp_all
  moreover have "spec_encode ?g (11 - K) ?m
          = map2 (XOR) (spec_encode ?g (11 - K) m1) (spec_encode ?g (11 - K) m2)"
    using assms(2,3) by (intro spec_encode_additive [OF g]) simp
  ultimately show ?thesis
    using assms(2,3) by simp
qed

text \<open>
  With \<^verbatim>\<open>m = 4\<close> and a buffer whose first four elements are zero on entry,
  the stored parity does not depend on \<^verbatim>\<open>t\<close>: the loops run to \<^verbatim>\<open>m\<close>, so
  four symbols are computed and stored for every \<^verbatim>\<open>t\<close> with
  \<^verbatim>\<open>k + t \<le> 15\<close> (compare C3).
\<close>

lemma rs_encode_message_4_ignores_t:
  assumes "K + T \<le> 15" and "K \<le> 11" and "K \<le> length msg" and "field_elements 4 (take K msg)"
  shows "rs_encode_message msg (int K) (int T) 4 (0 # 0 # 0 # 0 # rest)
           = rs_encode_message msg (int K) 4 4 (0 # 0 # 0 # 0 # rest)"
proof -
  have g: "length ([1, 13, 12, 8, 7] :: uint8 list) = Suc 4" "0 < (4 :: nat)"
    by simp_all
  show ?thesis
    using assms rs_encode_message_4_any_t [of K T msg rest] rs_encode_message_4_any_t [of K 4 msg rest]
    by (simp add: spec_encode_shortened [OF g])
qed

section \<open>Return value and the bounds of \<^verbatim>\<open>msgZ\<close>\<close>

text \<open>
  Every call that returns, returns 0 (compare C2). For \<^verbatim>\<open>m = 4\<close> and
  non-negative \<^verbatim>\<open>k\<close>, \<^verbatim>\<open>t\<close> with \<^verbatim>\<open>k + t \<le> 15\<close> no index into
  \<^verbatim>\<open>msgZ\<close> leaves the buffer, whatever else the call does (compare C5, whose
  failing input has \<^verbatim>\<open>m = 5\<close>).
\<close>

lemma rs_encode_message_returns_0:
  "rs_encode_message msg k t m parity = Inr (r, parity') \<Longrightarrow> r = 0"
  by (auto simp: rs_encode_message_def Let_def and_then_eq_Inr split: if_splits)

lemma and_then_eq_Inl:
  "and_then r f = Inl e \<longleftrightarrow> r = Inl e \<or> (\<exists>x. r = Inr x \<and> f x = Inl e)"
  by (cases r) simp_all

lemma for_loop_error:
  assumes "for_loop i n body s = Inl e" and "P s"
    and "\<And>j u u'. P u \<Longrightarrow> body j u = Inr u' \<Longrightarrow> P u'"
  shows "\<exists>j u. i \<le> j \<and> j < n \<and> P u \<and> body j u = Inl e"
  using assms
proof (induction i n body s rule: for_loop.induct)
  case (1 i n body s)
  from "1.prems"(1) have less: "i < n"
    by (subst (asm) for_loop.simps) (simp split: if_splits)
  show ?case
  proof (cases "body i s")
    case (Inl e')
    with "1.prems"(1) less have "e' = e"
      by (subst (asm) for_loop.simps) simp
    with Inl less "1.prems"(2) show ?thesis
      by auto
  next
    case (Inr u)
    with "1.prems"(1) less have rest: "for_loop (i + 1) n body u = Inl e"
      by (subst (asm) for_loop.simps) simp
    from "1.prems"(2) Inr have "P u"
      by (rule "1.prems"(3))
    with "1.IH" [OF less Inr rest] "1.prems"(3)
    obtain j v where "i + 1 \<le> j" "j < n" "P v" "body j v = Inl e"
      by blast
    then show ?thesis
      by (intro exI [of _ j] exI [of _ v]) simp
  qed
qed

lemma read_at_error: "read_at nm xs i = Inl e \<Longrightarrow> e = OutOfBounds nm"
  by (simp add: read_at_def split: if_splits)

lemma write_at_error: "write_at nm xs i v = Inl e \<Longrightarrow> e = OutOfBounds nm"
  by (simp add: write_at_def split: if_splits)

lemma table_at_error: "table_at nm tb l r = Inl e \<Longrightarrow> e = OutOfBounds nm"
  by (auto simp: table_at_def and_then_eq_Inl dest: read_at_error)

lemma galois_field_add_error:
  "galois_field_add m l r = Inl e \<Longrightarrow> e = OutOfBounds AdditionsTable"
  by (auto simp: galois_field_add_def split: if_splits dest: table_at_error)

lemma galois_field_multiply_generator_error:
  "galois_field_multiply_generator m l j = Inl e \<Longrightarrow> e = OutOfBounds ProductsTable"
  by (auto simp: galois_field_multiply_generator_def split: if_splits dest: table_at_error)

lemma lfsr_step_msgZ_error:
  assumes "lfsr_step m msgZ i parity = Inl (OutOfBounds MsgZ)"
  shows "\<not> (0 \<le> i \<and> i < int (length msgZ))"
proof
  assume i: "0 \<le> i \<and> i < int (length msgZ)"
  then have rd: "read_at MsgZ msgZ i = Inr (msgZ ! nat i)"
    by (simp add: read_at_def)
  have products: False
    if "for_loop 0 m (\<lambda>j rhs. and_then (galois_field_multiply_generator m f j)
                             (\<lambda>v. write_at Rhs rhs j v)) z = Inl (OutOfBounds MsgZ)" for f and z :: "int list"
  proof -
    from for_loop_error [OF that, of "\<lambda>_. True"]
    obtain j and u :: "int list" where "and_then (galois_field_multiply_generator m f j) (\<lambda>v. write_at Rhs u j v)
                        = Inl (OutOfBounds MsgZ)"
      by auto
    then show False
      by (auto simp: and_then_eq_Inl dest: galois_field_multiply_generator_error write_at_error)
  qed
  have shift: False
    if "for_loop 0 (m - 1)
                 (\<lambda>j par. and_then (read_at Parity par (j + 1)) (\<lambda>p.
                           and_then (read_at Rhs rhs j) (\<lambda>r.
                           and_then (galois_field_add m (uint p) r) (\<lambda>v.
                           write_at Parity par j (word_of_int v)))))
                 z = Inl (OutOfBounds MsgZ)" for rhs :: "int list" and z :: "uint8 list"
  proof -
    from for_loop_error [OF that, of "\<lambda>_. True"]
    obtain j and u :: "uint8 list" where "and_then (read_at Parity u (j + 1)) (\<lambda>p.
                           and_then (read_at Rhs rhs j) (\<lambda>r.
                           and_then (galois_field_add m (uint p) r) (\<lambda>v.
                           write_at Parity u j (word_of_int v)))) = Inl (OutOfBounds MsgZ)"
      by auto
    then show False
      by (auto simp: and_then_eq_Inl dest: read_at_error galois_field_add_error write_at_error)
  qed
  from assms show False
    unfolding lfsr_step_def rd and_then_Inr
    by (auto simp: and_then_eq_Inl
        dest: read_at_error galois_field_add_error write_at_error products shift)
qed

lemma rs_encode_message_4_msgZ_in_bounds:
  assumes "0 \<le> k" and "0 \<le> t" and "k + t \<le> 15"
  shows "rs_encode_message msg k t 4 parity \<noteq> Inl (OutOfBounds MsgZ)"
proof
  assume err: "rs_encode_message msg k t 4 parity = Inl (OutOfBounds MsgZ)"
  define sh where "sh = 15 - (k + t)"
  let ?copy = "\<lambda>i z. if \<not> in_int_range (i + sh) then Inl SignedOverflow
                   else and_then (read_at Msg msg i) (\<lambda>v. write_at MsgZ z (i + sh) v)"
  have sh: "0 \<le> sh" "sh + k \<le> 15" "(2 :: int) ^ nat 4 - 1 - (k + t) = sh"
    using assms by (simp_all add: sh_def)
  have ranges: "in_int_range (k + t)" "in_int_range sh" "in_int_range (sh + k)"
    using assms sh(1,2) by (simp_all add: in_int_range_def sh_def)
  have width: "(4 :: int) < 0 \<or> 31 \<le> (4 :: int) \<longleftrightarrow> False"
    by simp
  have buf: "replicate (nat (RS_MAX_PARITY_SYMBOLS + RS_MAX_MESSAGE_LENGTH)) (0 :: uint8) = replicate 24 0"
    by (simp add: RS_MAX_PARITY_SYMBOLS_def RS_MAX_MESSAGE_LENGTH_def)
  have pad: "for_loop 0 sh (\<lambda>i z. write_at MsgZ z i (0 :: uint8)) (replicate 24 0) = Inr (replicate 24 0)"
    using pad_loop [of 0 "nat sh" 24] sh assms by simp
  from err have "and_then (for_loop 0 k ?copy (replicate 24 (0 :: uint8)))
            (\<lambda>msgZ. and_then (for_loop 0 (sh + k) (lfsr_step 4 msgZ) parity) (\<lambda>parity'. Inr (0 :: int, parity')))
          = Inl (OutOfBounds MsgZ)"
    unfolding rs_encode_message_def Let_def sh(3) buf
    by (simp only: ranges pad width and_then_Inr if_False simp_thms)
  then consider
      (copy) "for_loop 0 k ?copy (replicate 24 (0 :: uint8)) = Inl (OutOfBounds MsgZ)"
    | (run) msgZ where "for_loop 0 k ?copy (replicate 24 (0 :: uint8)) = Inr msgZ"
        "for_loop 0 (sh + k) (lfsr_step 4 msgZ) parity = Inl (OutOfBounds MsgZ)"
    by (auto simp: and_then_eq_Inl)
  note split = this
  have inv: "length u' = 24" if "length u = 24" and "?copy j u = Inr u'" for j and u u' :: "uint8 list"
    using that by (auto simp: and_then_eq_Inr write_at_eq_Inr split: if_splits)
  from split show False
  proof cases
    case copy
    have "\<exists>j u. 0 \<le> j \<and> j < k \<and> length u = 24 \<and> ?copy j u = Inl (OutOfBounds MsgZ)"
      using inv by (intro for_loop_error [OF copy, where P = "\<lambda>z. length z = 24"]) auto
    then obtain j and u :: "uint8 list" where j: "0 \<le> j" "j < k" "length u = 24"
      and body: "?copy j u = Inl (OutOfBounds MsgZ)"
      by blast
    from j sh have "0 \<le> j + sh \<and> j + sh < int (length u)"
      by simp
    then have "write_at MsgZ u (j + sh) v \<noteq> Inl (OutOfBounds MsgZ)" for v
      by (simp add: write_at_def)
    with body show False
      by (auto simp: and_then_eq_Inl split: if_splits dest: read_at_error)
  next
    case run
    have len: "length msgZ = 24"
      using inv by (intro for_loop_preserves [OF run(1), where P = "\<lambda>z. length z = 24"]) auto
    from for_loop_error [OF run(2), of "\<lambda>_. True"]
    obtain j u where "0 \<le> j" "j < sh + k" "lfsr_step 4 msgZ j u = Inl (OutOfBounds MsgZ)"
      by auto
    with lfsr_step_msgZ_error [of 4 msgZ j u] len sh(2) show False
      by simp
  qed
qed

section \<open>The encoder on concrete calls\<close>

text \<open>
  The message of \<^verbatim>\<open>main.c\<close> is \<open>[2, 5, 6, 6, 0, 11, 15, 12, 1, 11]\<close>, with
  \<^verbatim>\<open>k = 10\<close>, \<^verbatim>\<open>t = 4\<close>, \<^verbatim>\<open>m = 4\<close>; there the parity buffer holds
  zeros on entry and the call stores the parity \<open>[6, 6, 8, 4]\<close>.
\<close>

text \<open>
  The call of \<^verbatim>\<open>main.c\<close> itself, as an instance of the general lemma for
  a zeroed buffer: the codeword is divisible by the generator polynomial.
\<close>

lemma rs_encode_message_main_c:
  "rs_encode_message [2, 5, 6, 6, 0, 11, 15, 12, 1, 11] 10 4 4 [0, 0, 0, 0] = Inr (0, [6, 6, 8, 4])
   \<and> poly_mod (generator_polynomial 4) ([2, 5, 6, 6, 0, 11, 15, 12, 1, 11] @ [6, 6, 8, 4]) = [0, 0, 0, 0]"
proof -
  let ?msg = "[2, 5, 6, 6, 0, 11, 15, 12, 1, 11] :: uint8 list"
  have enc: "rs_encode_message ?msg 10 4 4 [0, 0, 0, 0] = Inr (0, [6, 6, 8, 4])"
    by code_simp
  have "field_elements 4 (take 10 ?msg)"
    by (simp add: field_elements_def)
  from rs_encode_message_zeroed_buffer [of 10 ?msg "[]", OF _ _ this]
  obtain P where P: "rs_encode_message ?msg 10 4 4 [0, 0, 0, 0] = Inr (0, P)"
    and division: "poly_mod (generator_polynomial 4) (take 10 ?msg @ P) = [0, 0, 0, 0]"
    by auto
  from P enc have "P = [6, 6, 8, 4]"
    by simp
  with division enc show ?thesis
    by simp
qed

text \<open>
  C1 (at a failing input). The call of \<^verbatim>\<open>main.c\<close>, which meets every
  precondition, but on a parity buffer that holds \<open>[1, 0, 0, 0]\<close> on entry:
  \<^verbatim>\<open>rs_encode_message\<close> returns 0 and
  stores \<open>[0, 14, 6, 1]\<close>, and the codeword of the message followed by this
  parity leaves the remainder \<open>[6, 8, 14, 5]\<close>, not zero, on division by the
  generator polynomial. The function reads \<^verbatim>\<open>parity[0]\<close> in its first pass
  and never sets the register to zero.
\<close>

theorem rs_encode_message_codeword_remainder:
  "field_elements 4 [2, 5, 6, 6, 0, 11, 15, 12, 1, 11]
   \<and> (10 :: int) + 4 \<le> 2 ^ 4 - 1 \<and> 10 \<le> RS_MAX_MESSAGE_LENGTH \<and> 4 \<le> RS_MAX_PARITY_SYMBOLS
   \<and> rs_encode_message [2, 5, 6, 6, 0, 11, 15, 12, 1, 11] 10 4 4 [1, 0, 0, 0] = Inr (0, [0, 14, 6, 1])
   \<and> generator_polynomial 4 = [1, 13, 12, 8, 7]
   \<and> poly_mod (generator_polynomial 4) ([2, 5, 6, 6, 0, 11, 15, 12, 1, 11] @ [0, 14, 6, 1])
       = [6, 8, 14, 5]"
  by code_simp

text \<open>
  C2 (at failing inputs). \<^verbatim>\<open>rs_encode_message\<close> checks none of its
  arguments and has the single exit \<^verbatim>\<open>return 0\<close>. With the unsupported width
  \<^verbatim>\<open>m = 6\<close> (\<^verbatim>\<open>k = 2\<close>, \<^verbatim>\<open>t = 40\<close>) it returns 0 and has stored the
  error value \<^verbatim>\<open>-1\<close> of the field operations, as the byte 255, into the
  first six elements of the parity buffer. With \<^verbatim>\<open>t = 9\<close>, above
  \<^verbatim>\<open>RS_MAX_PARITY_SYMBOLS\<close>, and \<^verbatim>\<open>m = 4\<close> it returns 0 and has written
  the buffer as well.
\<close>

theorem rs_encode_message_no_validation:
  "RS_MAX_SYMBOL_SIZE < 6 \<and> RS_MAX_PARITY_SYMBOLS < 9
   \<and> rs_encode_message [1, 2] 2 40 6 (replicate 40 0) = Inr (0, replicate 6 255 @ replicate 34 0)
   \<and> rs_encode_message [1, 2] 2 9 4 (replicate 9 0) = Inr (0, [11, 0, 6, 11, 0, 0, 0, 0, 0])"
  by code_simp

text \<open>
  C3 (at a failing input). With \<^verbatim>\<open>t = 2\<close> and \<^verbatim>\<open>m = 4\<close> every pass
  computes four products and shifts four elements: on a buffer of four
  elements the call overwrites the elements 2 and 3, beyond the \<open>t\<close> parity
  symbols, and on a buffer of exactly \<open>t = 2\<close> elements it reads and writes
  outside the buffer.
\<close>

theorem rs_encode_message_bounds_are_m:
  "rs_encode_message [1, 2] 2 2 4 [0, 0, 7, 7] = Inr (0, [15, 0, 14, 1])
   \<and> rs_encode_message [1, 2] 2 2 4 [0, 0] = Inl (OutOfBounds Parity)"
  by code_simp

text \<open>
  C4 (at a failing input). The call of \<^verbatim>\<open>main.c\<close> made twice on the same
  buffer: the first call, on zeros, stores \<open>[6, 6, 8, 4]\<close>; the second call,
  with the same message, \<open>k\<close>, \<open>t\<close> and \<open>m\<close>, starts from that content
  and stores \<open>[5, 10, 9, 15]\<close>.
\<close>

theorem rs_encode_message_depends_on_buffer:
  "rs_encode_message [2, 5, 6, 6, 0, 11, 15, 12, 1, 11] 10 4 4 [0, 0, 0, 0] = Inr (0, [6, 6, 8, 4])
   \<and> rs_encode_message [2, 5, 6, 6, 0, 11, 15, 12, 1, 11] 10 4 4 [6, 6, 8, 4] = Inr (0, [5, 10, 9, 15])"
  by code_simp

text \<open>
  C5 (at a failing input). With \<^verbatim>\<open>m = 5\<close>, \<^verbatim>\<open>k = 10\<close>, \<^verbatim>\<open>t = 4\<close>, all
  within the documented limits, \<^verbatim>\<open>shortened\<close> is 17 and the copy of the
  message writes \<^verbatim>\<open>msgZ[17 .. 26]\<close>, past the 24 elements of \<^verbatim>\<open>msgZ\<close>.
\<close>

theorem rs_encode_message_msgZ_overflow:
  "10 \<le> RS_MAX_MESSAGE_LENGTH \<and> 4 \<le> RS_MAX_PARITY_SYMBOLS \<and> (10::int) + 4 \<le> 2 ^ 5 - 1
   \<and> rs_encode_message (replicate 10 1) 10 4 5 (replicate 4 0) = Inl (OutOfBounds MsgZ)"
  by code_simp

text \<open>
  C6 (at a failing input). The all-zero message of length 1 with \<^verbatim>\<open>t = 4\<close>,
  \<^verbatim>\<open>m = 4\<close>, on a parity buffer that holds \<open>[1, 0, 0, 0]\<close> on entry: the
  stored parity is \<open>[6, 8, 14, 5]\<close>, not zero.
\<close>

theorem rs_encode_message_zero_message:
  "rs_encode_message [0] 1 4 4 [1, 0, 0, 0] = Inr (0, [6, 8, 14, 5])"
  by code_simp

text \<open>
  C7 (at a failing input). The messages \<open>[1]\<close> and \<open>[2]\<close> and their sum
  \<open>[3]\<close>, each encoded with \<^verbatim>\<open>t = 4\<close>, \<^verbatim>\<open>m = 4\<close> on a parity buffer that
  holds \<open>[1, 0, 0, 0]\<close> on entry: the sum of the first two parities is
  \<open>[4, 7, 11, 9]\<close>, the parity of the sum is \<open>[2, 15, 5, 12]\<close>.
\<close>

theorem rs_encode_message_not_additive:
  "rs_encode_message [1] 1 4 4 [1, 0, 0, 0] = Inr (0, [11, 4, 6, 2])
   \<and> rs_encode_message [2] 1 4 4 [1, 0, 0, 0] = Inr (0, [15, 3, 13, 11])
   \<and> rs_encode_message (map2 (XOR) [1] [2]) 1 4 4 [1, 0, 0, 0] = Inr (0, [2, 15, 5, 12])
   \<and> map2 (XOR) [11, 4, 6, 2] [15, 3, 13, 11] = [4, 7, 11, 9 :: uint8]"
  by code_simp

text \<open>
  C9 (at a failing input). With \<^verbatim>\<open>m = 5\<close>, \<^verbatim>\<open>k = 16\<close>, \<^verbatim>\<open>t = 8\<close>, the
  documented maxima, a message of field elements and a parity buffer that
  holds the byte 200 in each of its eight elements on entry, the call returns
  0 and the parity register still holds 200, which is not below \<open>2^5\<close>, in
  the elements 5, 6 and 7: the register is never initialised, and the passes
  write only the first \<^verbatim>\<open>m = 5\<close> of its \<^verbatim>\<open>t = 8\<close> elements. The values that
  the field operations return are in range (lemma
  \<open>field_operations_in_range\<close>); the values held in the register are not.
\<close>

theorem rs_encode_message_register_not_field_elements:
  "field_elements 5 [1, 2, 3, 4, 5, 6, 7, 8, 9, 10, 11, 12, 13, 14, 15, 16]
   \<and> 16 \<le> RS_MAX_MESSAGE_LENGTH \<and> 8 \<le> RS_MAX_PARITY_SYMBOLS \<and> (16 :: int) + 8 \<le> 2 ^ 5 - 1
   \<and> rs_encode_message [1, 2, 3, 4, 5, 6, 7, 8, 9, 10, 11, 12, 13, 14, 15, 16] 16 8 5
         [200, 200, 200, 200, 200, 200, 200, 200]
       = Inr (0, [0, 0, 0, 0, 0, 200, 200, 200])
   \<and> \<not> field_elements 5 [0, 0, 0, 0, 0, 200, 200, 200]"
  by code_simp

end
